theory Spec2Isabelle
  imports Main "HOL-Library.Monad_Syntax"
begin

section \<open>The camelcase rule: strings\<close>

text \<open>
  The rule \<^verbatim>\<open>lib/rules/camelcase.js\<close> inspects identifier names and rewrites them.
  Identifier text is modelled as a \<^typ>\<open>string\<close> of ASCII characters, one
  \<^typ>\<open>char\<close> per code unit. \<^verbatim>\<open>String.prototype.toUpperCase\<close> maps the letters
  \<^verbatim>\<open>a\<close> to \<^verbatim>\<open>z\<close> to \<^verbatim>\<open>A\<close> to \<^verbatim>\<open>Z\<close> and leaves every other ASCII
  character as it is.
\<close>

definition lower_letters :: string where
  "lower_letters = ''abcdefghijklmnopqrstuvwxyz''"

definition upper_letters :: string where
  "upper_letters = ''ABCDEFGHIJKLMNOPQRSTUVWXYZ''"

definition toUpperCase_char :: "char \<Rightarrow> char" where
  "toUpperCase_char c =
     (case map_of (zip lower_letters upper_letters) c of
        Some u \<Rightarrow> u
      | None \<Rightarrow> c)"

definition toUpperCase :: "string \<Rightarrow> string" where
  "toUpperCase s = map toUpperCase_char s"

text \<open>
  \<^verbatim>\<open>Array.prototype.indexOf\<close> and \<^verbatim>\<open>String.prototype.indexOf\<close> with a
  one-character needle: the position of the first occurrence, or \<open>-1\<close>.
\<close>

fun indexOf_from :: "'a list \<Rightarrow> 'a \<Rightarrow> int \<Rightarrow> int" where
  "indexOf_from [] x i = - 1"
| "indexOf_from (y # ys) x i = (if y = x then i else indexOf_from ys x (i + 1))"

definition indexOf :: "'a list \<Rightarrow> 'a \<Rightarrow> int" where
  "indexOf xs x = indexOf_from xs x 0"

text \<open>
  \<^verbatim>\<open>isUnderscored(name)\<close>:
  \<^verbatim>\<open>name.indexOf("_") > -1 && name !== name.toUpperCase()\<close>.
\<close>

definition isUnderscored :: "string \<Rightarrow> bool" where
  "isUnderscored name \<longleftrightarrow> indexOf name (CHR ''_'') > - 1 \<and> name \<noteq> toUpperCase name"

text \<open>
  The case map above is that of the code on ASCII text only: outside ASCII,
  \<^verbatim>\<open>toUpperCase\<close> follows the Unicode tables of the host. What is stated below of
  names whose judgement depends on the case map is stated of ASCII names.
\<close>

definition ascii_text :: "string \<Rightarrow> bool" where
  "ascii_text s = list_all (\<lambda>c. (of_char c :: nat) < 128) s"

subsection \<open>The regular expressions\<close>

text \<open>
  \<^verbatim>\<open>/^_+/.exec(text)\<close> yields the longest run of underscores at the start of the
  text, or \<^verbatim>\<open>null\<close> (here \<open>None\<close>) when the text does not start with one;
  \<^verbatim>\<open>/_+$/.exec(text)\<close> does the same for the run at the end.
  \<^verbatim>\<open>text.replace(/^_+|_+$/g, "")\<close> deletes both runs.
\<close>

definition privateFlagPrefixRegExp_exec :: "string \<Rightarrow> string option" where
  "privateFlagPrefixRegExp_exec text =
     (let m = takeWhile (\<lambda>c. c = CHR ''_'') text in if m = [] then None else Some m)"

definition privateFlagSuffixRegExp_exec :: "string \<Rightarrow> string option" where
  "privateFlagSuffixRegExp_exec text =
     (let m = rev (takeWhile (\<lambda>c. c = CHR ''_'') (rev text)) in if m = [] then None else Some m)"

definition strip_underscores :: "string \<Rightarrow> string" where
  "strip_underscores text =
     rev (dropWhile (\<lambda>c. c = CHR ''_'') (rev (dropWhile (\<lambda>c. c = CHR ''_'') text)))"

subsection \<open>removeUnderscore\<close>

text \<open>
  The \<^verbatim>\<open>for\<close> loop of \<^verbatim>\<open>removeUnderscore\<close>, over the characters of
  \<^verbatim>\<open>targetText\<close> that are still to be read, with the loop's two variables
  \<^verbatim>\<open>newText\<close> and \<^verbatim>\<open>wasUnderscore\<close>.
\<close>

fun removeUnderscore_loop :: "string \<Rightarrow> string \<Rightarrow> bool \<Rightarrow> string" where
  "removeUnderscore_loop [] newText wasUnderscore = newText"
| "removeUnderscore_loop (str # rest) newText wasUnderscore =
     (if str = CHR ''_'' then removeUnderscore_loop rest newText True
      else if wasUnderscore
        then removeUnderscore_loop rest (newText @ [toUpperCase_char str]) False
        else removeUnderscore_loop rest (newText @ [str]) wasUnderscore)"

definition removeUnderscore :: "string \<Rightarrow> string" where
  "removeUnderscore text =
     (let privateFlagPrefix =
            (case privateFlagPrefixRegExp_exec text of Some m \<Rightarrow> m | None \<Rightarrow> []);
          privateFlagSuffix =
            (case privateFlagSuffixRegExp_exec text of Some m \<Rightarrow> m | None \<Rightarrow> []);
          targetText = strip_underscores text;
          newText = removeUnderscore_loop targetText [] False
      in privateFlagPrefix @ newText @ privateFlagSuffix)"

subsection \<open>The rewriting as the specification words it\<close>

text \<open>
  The specification describes the rewriting by its result: the leading and the trailing
  run of underscores are kept; between them, the text is cut at its underscores into
  words, the first word is copied, every later word has its first character uppercased,
  and the words are joined with nothing between them. An empty word, which is what lies
  between two consecutive underscores, adds nothing.
\<close>

fun split_underscore :: "string \<Rightarrow> string list" where
  "split_underscore [] = [[]]"
| "split_underscore (c # cs) =
     (if c = CHR ''_'' then [] # split_underscore cs
      else (case split_underscore cs of
              [] \<Rightarrow> [[c]]
            | w # ws \<Rightarrow> (c # w) # ws))"

fun capitalize :: "string \<Rightarrow> string" where
  "capitalize [] = []"
| "capitalize (c # cs) = toUpperCase_char c # cs"

fun join_words :: "string list \<Rightarrow> string" where
  "join_words [] = []"
| "join_words (w # ws) = w @ concat (map capitalize ws)"

definition rewrite_spec :: "string \<Rightarrow> string" where
  "rewrite_spec text =
     takeWhile (\<lambda>c. c = CHR ''_'') text @
     join_words (split_underscore (strip_underscores text)) @
     rev (takeWhile (\<lambda>c. c = CHR ''_'') (rev text))"

section \<open>The camelcase rule: syntax trees\<close>

text \<open>
  The rule reads an ESTree node through its fields. A node is an object in the parser's
  heap, named by its address; a field that holds a node holds its address, and a field
  the node does not have is \<^verbatim>\<open>undefined\<close> (here \<open>None\<close>). Only the fields that
  \<^verbatim>\<open>camelcase.js\<close> reads are kept: \<^verbatim>\<open>type\<close>, \<^verbatim>\<open>name\<close>, \<^verbatim>\<open>parent\<close>,
  \<^verbatim>\<open>object\<close>, \<^verbatim>\<open>property\<close>, \<^verbatim>\<open>left\<close>, \<^verbatim>\<open>right\<close>, \<^verbatim>\<open>key\<close>,
  \<^verbatim>\<open>value\<close> and \<^verbatim>\<open>local\<close>.
\<close>

type_synonym nid = nat

record node =
  node_type :: string
  node_name :: "string option"
  node_parent :: "nid option"
  node_object :: "nid option"
  node_property :: "nid option"
  node_left :: "nid option"
  node_right :: "nid option"
  node_key :: "nid option"
  node_value :: "nid option"
  node_local :: "nid option"

type_synonym tree = "nid \<rightharpoonup> node"

text \<open>
  Following a field to the node it holds. Reading a field of the result when the field
  was \<^verbatim>\<open>undefined\<close> is a \<^verbatim>\<open>TypeError\<close> in JavaScript: the handler below is in
  the option monad, and \<open>None\<close> is that exception.
\<close>

definition deref :: "tree \<Rightarrow> nid option \<Rightarrow> node option" where
  "deref h r = (case r of None \<Rightarrow> None | Some i \<Rightarrow> h i)"

subsection \<open>Reporting\<close>

text \<open>
  The descriptor handed to \<^verbatim>\<open>context.report\<close>: the node, the message and the
  \<^verbatim>\<open>name\<close> the message is filled with. The state of one run of the rule is the
  array \<^verbatim>\<open>reported\<close> and the descriptors \<^verbatim>\<open>context.report\<close> has received.
\<close>

record descriptor =
  d_node :: nid
  d_message :: string
  d_name :: "string option"

record state =
  reported :: "nid list"
  context_reports :: "descriptor list"

definition initial_state :: state where
  "initial_state = \<lparr>reported = [], context_reports = []\<rparr>"

definition message :: string where
  "message = ''Identifier '' @ [CHR 0x27] @ ''{{name}}'' @ [CHR 0x27] @ '' is not in camel case.''"

definition report :: "tree \<Rightarrow> state \<Rightarrow> nid \<Rightarrow> state" where
  "report h st n =
     (if indexOf (reported st) n < 0
      then st\<lparr>reported := reported st @ [n],
              context_reports := context_reports st @
                [\<lparr>d_node = n,
                  d_message = message,
                  d_name = (case h n of None \<Rightarrow> None | Some nd \<Rightarrow> node_name nd)\<rparr>]\<rparr>
      else st)"

text \<open>The nodes that \<^verbatim>\<open>context.report\<close> has received, in order.\<close>

definition reported_nodes :: "state \<Rightarrow> nid list" where
  "reported_nodes st = map d_node (context_reports st)"

text \<open>
  The \<^verbatim>\<open>fix\<close> callback of a descriptor replaces the node's source text, which the
  host supplies, by its rewriting.
\<close>

definition fix_text :: "(nid \<Rightarrow> string) \<Rightarrow> nid \<Rightarrow> nid \<times> string" where
  "fix_text getText n = (n, removeUnderscore (getText n))"

subsection \<open>The option and the handler\<close>

text \<open>
  \<^verbatim>\<open>properties\<close> is \<^verbatim>\<open>options.properties || ""\<close>, replaced by
  \<^verbatim>\<open>"always"\<close> unless it is \<^verbatim>\<open>"always"\<close> or \<^verbatim>\<open>"never"\<close>.
\<close>

definition properties_of :: "string option \<Rightarrow> string" where
  "properties_of opt =
     (let properties = (case opt of None \<Rightarrow> [] | Some p \<Rightarrow> p)
      in if properties \<noteq> ''always'' \<and> properties \<noteq> ''never'' then ''always'' else properties)"

definition ALLOWED_PARENT_TYPES :: "string set" where
  "ALLOWED_PARENT_TYPES = {''CallExpression'', ''NewExpression''}"

definition import_specifier_types :: "string list" where
  "import_specifier_types =
     [''ImportSpecifier'', ''ImportNamespaceSpecifier'', ''ImportDefaultSpecifier'']"

text \<open>
  \<^verbatim>\<open>effectiveParent\<close>: the parent's parent when the parent is a
  \<^verbatim>\<open>MemberExpression\<close>, the parent otherwise. It may be \<^verbatim>\<open>undefined\<close>; only
  reading its \<^verbatim>\<open>type\<close> would then throw.
\<close>

definition effectiveParent :: "node \<Rightarrow> node \<Rightarrow> nid option" where
  "effectiveParent nd parent =
     (if node_type parent = ''MemberExpression'' then node_parent parent else node_parent nd)"

text \<open>
  The body of the \<^verbatim>\<open>MemberExpression\<close> branch, and the test against
  \<^verbatim>\<open>ALLOWED_PARENT_TYPES\<close> that the \<^verbatim>\<open>Property\<close> branch and the last
  branch share, with the evaluation order of \<^verbatim>\<open>&&\<close> and \<^verbatim>\<open>||\<close>: a field
  is read only when the operands before it did not decide.
\<close>

definition member_branch :: "tree \<Rightarrow> state \<Rightarrow> nid \<Rightarrow> node \<Rightarrow> node \<Rightarrow> string \<Rightarrow> state option" where
  "member_branch h st n nd parent name =
     do {
       obj \<leftarrow> deref h (node_object parent);
       if node_type obj = ''Identifier'' \<and> node_name obj = node_name nd \<and> isUnderscored name
       then Some (report h st n)
       else do {
         ep \<leftarrow> deref h (effectiveParent nd parent);
         if node_type ep = ''AssignmentExpression'' \<and> isUnderscored name
         then do {
           r \<leftarrow> deref h (node_right ep);
           if node_type r \<noteq> ''MemberExpression'' then Some (report h st n)
           else do {
             l \<leftarrow> deref h (node_left ep);
             if node_type l = ''MemberExpression''
             then do {
               p \<leftarrow> deref h (node_property l);
               if node_name p = node_name nd then Some (report h st n) else Some st
             }
             else Some st
           }
         }
         else Some st
       }
     }"

definition allowed_parent_branch :: "tree \<Rightarrow> state \<Rightarrow> nid \<Rightarrow> node \<Rightarrow> node \<Rightarrow> string \<Rightarrow> state option" where
  "allowed_parent_branch h st n nd parent name =
     (if isUnderscored name
      then do {
        ep \<leftarrow> deref h (effectiveParent nd parent);
        if node_type ep \<notin> ALLOWED_PARENT_TYPES then Some (report h st n) else Some st
      }
      else Some st)"

text \<open>
  The \<^verbatim>\<open>Identifier\<close> handler, called by the host on the identifier node at
  address \<open>n\<close>. It returns the state after the call, or \<open>None\<close> when it throws.
\<close>

definition Identifier :: "string \<Rightarrow> tree \<Rightarrow> state \<Rightarrow> nid \<Rightarrow> state option" where
  "Identifier properties h st n =
     do {
       nd \<leftarrow> h n;
       node_name_text \<leftarrow> node_name nd;
       let name = strip_underscores node_name_text;
       parent \<leftarrow> deref h (node_parent nd);
       if node_type parent = ''MemberExpression'' then
         if properties = ''never'' then Some st
         else member_branch h st n nd parent name
       else if node_type parent = ''Property'' then
         if properties = ''never'' then Some st
         else if (case deref h (node_parent parent) of
                    None \<Rightarrow> False
                  | Some grandparent \<Rightarrow> node_type grandparent = ''ObjectPattern'') \<and>
                 node_key parent = Some n \<and> node_value parent \<noteq> Some n
           then Some st
           else allowed_parent_branch h st n nd parent name
       else if indexOf import_specifier_types (node_type parent) \<ge> 0 then
         if (case deref h (node_local parent) of
               None \<Rightarrow> False
             | Some loc \<Rightarrow> node_name loc = node_name nd) \<and> isUnderscored name
         then Some (report h st n)
         else Some st
       else allowed_parent_branch h st n nd parent name
     }"

text \<open>
  One traversal: the host calls the handler on the identifier nodes in the order it
  visits them, starting with nothing reported.
\<close>

fun traverse :: "string \<Rightarrow> tree \<Rightarrow> state \<Rightarrow> nid list \<Rightarrow> state option" where
  "traverse properties h st [] = Some st"
| "traverse properties h st (n # ns) =
     (case Identifier properties h st n of
        None \<Rightarrow> None
      | Some st' \<Rightarrow> traverse properties h st' ns)"

section \<open>Example programs\<close>

text \<open>
  The trees of the programs used below, as the parser builds them: every node with its
  \<^verbatim>\<open>type\<close> and \<^verbatim>\<open>parent\<close>, and the fields its type has.
\<close>

definition new_node :: "string \<Rightarrow> nid option \<Rightarrow> node" where
  "new_node t p =
     \<lparr>node_type = t, node_name = None, node_parent = p, node_object = None,
      node_property = None, node_left = None, node_right = None, node_key = None,
      node_value = None, node_local = None\<rparr>"

definition new_identifier :: "string \<Rightarrow> nid option \<Rightarrow> node" where
  "new_identifier x p = (new_node ''Identifier'' p)\<lparr>node_name := Some x\<rparr>"

text \<open>\<^verbatim>\<open>foo({k: 1})\<close>: the key is node 6.\<close>

definition call_argument_tree :: "string \<Rightarrow> tree" where
  "call_argument_tree k = map_of
     [(0, new_node ''Program'' None),
      (1, new_node ''ExpressionStatement'' (Some 0)),
      (2, new_node ''CallExpression'' (Some 1)),
      (3, new_identifier ''foo'' (Some 2)),
      (4, new_node ''ObjectExpression'' (Some 2)),
      (5, (new_node ''Property'' (Some 4))\<lparr>node_key := Some 6, node_value := Some 7\<rparr>),
      (6, new_identifier k (Some 5)),
      (7, new_node ''Literal'' (Some 5))]"

text \<open>\<^verbatim>\<open>const v = {k: 1}\<close>: the variable is node 3, the key is node 6.\<close>

definition declarator_tree :: "string \<Rightarrow> string \<Rightarrow> tree" where
  "declarator_tree v k = map_of
     [(0, new_node ''Program'' None),
      (1, new_node ''VariableDeclaration'' (Some 0)),
      (2, new_node ''VariableDeclarator'' (Some 1)),
      (3, new_identifier v (Some 2)),
      (4, new_node ''ObjectExpression'' (Some 2)),
      (5, (new_node ''Property'' (Some 4))\<lparr>node_key := Some 6, node_value := Some 7\<rparr>),
      (6, new_identifier k (Some 5)),
      (7, new_node ''Literal'' (Some 5))]"

text \<open>\<^verbatim>\<open>obj.p = 5\<close>: the property is node 5.\<close>

definition member_assignment_tree :: "string \<Rightarrow> tree" where
  "member_assignment_tree p = map_of
     [(0, new_node ''Program'' None),
      (1, new_node ''ExpressionStatement'' (Some 0)),
      (2, (new_node ''AssignmentExpression'' (Some 1))\<lparr>node_left := Some 3, node_right := Some 6\<rparr>),
      (3, (new_node ''MemberExpression'' (Some 2))\<lparr>node_object := Some 4, node_property := Some 5\<rparr>),
      (4, new_identifier ''obj'' (Some 3)),
      (5, new_identifier p (Some 3)),
      (6, new_node ''Literal'' (Some 2))]"

text \<open>\<^verbatim>\<open>x = obj.p\<close>: the property is node 6.\<close>

definition member_read_tree :: "string \<Rightarrow> tree" where
  "member_read_tree p = map_of
     [(0, new_node ''Program'' None),
      (1, new_node ''ExpressionStatement'' (Some 0)),
      (2, (new_node ''AssignmentExpression'' (Some 1))\<lparr>node_left := Some 3, node_right := Some 4\<rparr>),
      (3, new_identifier ''x'' (Some 2)),
      (4, (new_node ''MemberExpression'' (Some 2))\<lparr>node_object := Some 5, node_property := Some 6\<rparr>),
      (5, new_identifier ''obj'' (Some 4)),
      (6, new_identifier p (Some 4))]"

text \<open>\<^verbatim>\<open>a.p = b.q\<close>: the properties are nodes 5 and 8.\<close>

definition member_copy_tree :: "string \<Rightarrow> string \<Rightarrow> tree" where
  "member_copy_tree p q = map_of
     [(0, new_node ''Program'' None),
      (1, new_node ''ExpressionStatement'' (Some 0)),
      (2, (new_node ''AssignmentExpression'' (Some 1))\<lparr>node_left := Some 3, node_right := Some 6\<rparr>),
      (3, (new_node ''MemberExpression'' (Some 2))\<lparr>node_object := Some 4, node_property := Some 5\<rparr>),
      (4, new_identifier ''a'' (Some 3)),
      (5, new_identifier p (Some 3)),
      (6, (new_node ''MemberExpression'' (Some 2))\<lparr>node_object := Some 7, node_property := Some 8\<rparr>),
      (7, new_identifier ''b'' (Some 6)),
      (8, new_identifier q (Some 6))]"

text \<open>
  \<^verbatim>\<open>({k} = obj)\<close>: in a shorthand property the parser stores one identifier node,
  here node 5, as both \<^verbatim>\<open>key\<close> and \<^verbatim>\<open>value\<close>, and the host visits it once for
  each.
\<close>

definition shorthand_pattern_tree :: "string \<Rightarrow> tree" where
  "shorthand_pattern_tree k = map_of
     [(0, new_node ''Program'' None),
      (1, new_node ''ExpressionStatement'' (Some 0)),
      (2, (new_node ''AssignmentExpression'' (Some 1))\<lparr>node_left := Some 3, node_right := Some 6\<rparr>),
      (3, new_node ''ObjectPattern'' (Some 2)),
      (4, (new_node ''Property'' (Some 3))\<lparr>node_key := Some 5, node_value := Some 5\<rparr>),
      (5, new_identifier k (Some 4)),
      (6, new_identifier ''obj'' (Some 2))]"

text \<open>\<^verbatim>\<open>({k: v} = obj)\<close>: the key is node 5, the value node 7.\<close>

definition renaming_pattern_tree :: "string \<Rightarrow> string \<Rightarrow> tree" where
  "renaming_pattern_tree k v = map_of
     [(0, new_node ''Program'' None),
      (1, new_node ''ExpressionStatement'' (Some 0)),
      (2, (new_node ''AssignmentExpression'' (Some 1))\<lparr>node_left := Some 3, node_right := Some 6\<rparr>),
      (3, new_node ''ObjectPattern'' (Some 2)),
      (4, (new_node ''Property'' (Some 3))\<lparr>node_key := Some 5, node_value := Some 7\<rparr>),
      (5, new_identifier k (Some 4)),
      (6, new_identifier ''obj'' (Some 2)),
      (7, new_identifier v (Some 4))]"

text \<open>
  \<^verbatim>\<open>import { e as l } from "m"\<close>: the imported name is node 3, the local name
  node 4.
\<close>

definition import_as_tree :: "string \<Rightarrow> string \<Rightarrow> tree" where
  "import_as_tree e l = map_of
     [(0, new_node ''Program'' None),
      (1, new_node ''ImportDeclaration'' (Some 0)),
      (2, (new_node ''ImportSpecifier'' (Some 1))\<lparr>node_local := Some 4\<rparr>),
      (3, new_identifier e (Some 2)),
      (4, new_identifier l (Some 2)),
      (5, new_node ''Literal'' (Some 1))]"

text \<open>
  \<^verbatim>\<open>import { e } from "m"\<close>: one identifier node, node 3, is both the imported
  and the local name.
\<close>

definition import_tree :: "string \<Rightarrow> tree" where
  "import_tree e = map_of
     [(0, new_node ''Program'' None),
      (1, new_node ''ImportDeclaration'' (Some 0)),
      (2, (new_node ''ImportSpecifier'' (Some 1))\<lparr>node_local := Some 3\<rparr>),
      (3, new_identifier e (Some 2)),
      (5, new_node ''Literal'' (Some 1))]"

section \<open>Properties of the string functions\<close>

lemma indexOf_from_neg: "0 \<le> i \<Longrightarrow> indexOf_from xs x i < 0 \<longleftrightarrow> x \<notin> set xs"
  by (induction xs arbitrary: i) auto

lemma indexOf_neg_iff: "indexOf xs x < 0 \<longleftrightarrow> x \<notin> set xs"
  by (simp add: indexOf_def indexOf_from_neg)

lemma indexOf_nonneg_iff: "0 \<le> indexOf xs x \<longleftrightarrow> x \<in> set xs"
  using indexOf_neg_iff [of xs x] by auto






lemma toUpperCase_char_range: "toUpperCase_char c = c \<or> toUpperCase_char c \<in> set upper_letters"
proof (cases "map_of (zip lower_letters upper_letters) c")
  case None
  then show ?thesis by (simp add: toUpperCase_char_def)
next
  case (Some u)
  then have "(c, u) \<in> set (zip lower_letters upper_letters)" by (rule map_of_SomeD)
  then have "u \<in> set upper_letters" by (rule set_zip_rightD)
  with Some show ?thesis by (simp add: toUpperCase_char_def)
qed

lemma toUpperCase_char_not_underscore:
  "c \<noteq> CHR ''_'' \<Longrightarrow> toUpperCase_char c \<noteq> CHR ''_''"
  using toUpperCase_char_range [of c] by (auto simp: upper_letters_def)

lemma toUpperCase_char_not_underscore':
  "c \<noteq> CHR ''_'' \<Longrightarrow> CHR ''_'' \<noteq> toUpperCase_char c"
  using toUpperCase_char_not_underscore [of c] by auto

lemma loop_acc:
  "removeUnderscore_loop cs acc w = acc @ removeUnderscore_loop cs [] w"
proof (induction cs arbitrary: acc w)
  case Nil
  show ?case by simp
next
  case (Cons c cs)
  show ?case
    using Cons.IH [of "acc @ [toUpperCase_char c]" False] Cons.IH [of "[toUpperCase_char c]" False]
      Cons.IH [of "acc @ [c]" False] Cons.IH [of "[c]" False] Cons.IH [of acc True]
    by simp
qed

lemma split_underscore_nonempty: "split_underscore cs \<noteq> []"
  by (induction cs) (auto split: list.splits)

lemma loop_words:
  "removeUnderscore_loop cs [] False = join_words (split_underscore cs)"
  "removeUnderscore_loop cs [] True = concat (map capitalize (split_underscore cs))"
proof (induction cs)
  case Nil
  { case 1 show ?case by simp }
  { case 2 show ?case by simp }
next
  case (Cons c cs)
  obtain w ws where sp: "split_underscore cs = w # ws"
    using split_underscore_nonempty [of cs] by (cases "split_underscore cs") auto
  { case 1
    show ?case
      using Cons.IH loop_acc [of cs "[c]" False] by (simp add: sp) }
  { case 2
    show ?case
      using Cons.IH loop_acc [of cs "[toUpperCase_char c]" False] by (simp add: sp) }
qed

lemma prefix_exec: "(case privateFlagPrefixRegExp_exec text of Some m \<Rightarrow> m | None \<Rightarrow> []) = takeWhile (\<lambda>c. c = CHR ''_'') text"
  by (simp add: privateFlagPrefixRegExp_exec_def Let_def)

lemma suffix_exec: "(case privateFlagSuffixRegExp_exec text of Some m \<Rightarrow> m | None \<Rightarrow> []) = rev (takeWhile (\<lambda>c. c = CHR ''_'') (rev text))"
  by (simp add: privateFlagSuffixRegExp_exec_def Let_def)

lemma removeUnderscore_eq:
  "removeUnderscore text =
     takeWhile (\<lambda>c. c = CHR ''_'') text @
     removeUnderscore_loop (strip_underscores text) [] False @
     rev (takeWhile (\<lambda>c. c = CHR ''_'') (rev text))"
  by (simp add: removeUnderscore_def Let_def prefix_exec suffix_exec)



lemma loop_no_underscore:
  "CHR ''_'' \<notin> set cs \<Longrightarrow> removeUnderscore_loop cs [] False = cs"
proof (induction cs)
  case Nil
  show ?case by simp
next
  case (Cons c cs)
  then have "c \<noteq> CHR ''_''" and "removeUnderscore_loop cs [] False = cs" by auto
  then show ?case using loop_acc [of cs "[c]" False] by simp
qed

lemma loop_output_no_underscore:
  "CHR ''_'' \<notin> set acc \<Longrightarrow> CHR ''_'' \<notin> set (removeUnderscore_loop cs acc w)"
proof (induction cs acc w rule: removeUnderscore_loop.induct)
  case (1 newText wasUnderscore)
  then show ?case by simp
next
  case (2 str rest newText wasUnderscore)
  show ?case
  proof (cases "str = CHR ''_''")
    case True
    then show ?thesis using 2 by simp
  next
    case False
    then have "CHR ''_'' \<notin> set (newText @ [toUpperCase_char str])"
      and "CHR ''_'' \<notin> set (newText @ [str])"
      using "2.prems" toUpperCase_char_not_underscore' [of str] by auto
    then show ?thesis using False "2.IH"(2,3) by (cases wasUnderscore) simp_all
  qed
qed

lemma loop_nonempty:
  "cs \<noteq> [] \<Longrightarrow> hd cs \<noteq> CHR ''_'' \<Longrightarrow> removeUnderscore_loop cs [] False \<noteq> []"
  using loop_acc [of "tl cs" "[hd cs]" False] by (cases cs) auto

lemma takeWhile_frame:
  "\<forall>c\<in>set p. P c \<Longrightarrow> \<not> P a \<Longrightarrow> takeWhile P (p @ a # r) = p"
  by (induction p) auto

lemma dropWhile_frame:
  "\<forall>c\<in>set p. P c \<Longrightarrow> \<not> P a \<Longrightarrow> dropWhile P (p @ a # r) = a # r"
  by (induction p) auto

lemma framed_parts:
  assumes p: "\<forall>c\<in>set p. c = CHR ''_''" and q: "\<forall>c\<in>set q. c = CHR ''_''"
    and m: "m \<noteq> []" "hd m \<noteq> CHR ''_''" "last m \<noteq> CHR ''_''"
  shows "takeWhile (\<lambda>c. c = CHR ''_'') (p @ m @ q) = p"
    and "rev (takeWhile (\<lambda>c. c = CHR ''_'') (rev (p @ m @ q))) = q"
    and "strip_underscores (p @ m @ q) = m"
proof -
  let ?u = "\<lambda>c. c = CHR ''_''"
  from m obtain a as where mh: "m = a # as" "\<not> ?u a" by (cases m) auto
  from m obtain bs b where ml: "m = bs @ [b]" "\<not> ?u b"
    by (cases m rule: rev_cases) auto
  have "takeWhile ?u (p @ a # (as @ q)) = p" using p mh(2) by (rule takeWhile_frame)
  then show "takeWhile ?u (p @ m @ q) = p" by (simp add: mh(1))
  have "dropWhile ?u (p @ a # (as @ q)) = a # (as @ q)" using p mh(2) by (rule dropWhile_frame)
  then have dw_p: "dropWhile ?u (p @ m @ q) = m @ q" by (simp add: mh(1))
  have revq: "\<forall>c\<in>set (rev q). ?u c" using q by simp
  have "takeWhile ?u (rev q @ b # (rev bs @ rev p)) = rev q" using revq ml(2) by (rule takeWhile_frame)
  then show "rev (takeWhile ?u (rev (p @ m @ q))) = q" by (simp add: ml(1))
  have "dropWhile ?u (rev q @ b # rev bs) = b # rev bs" using revq ml(2) by (rule dropWhile_frame)
  then have "dropWhile ?u (rev (m @ q)) = rev m" by (simp add: ml(1))
  then show "strip_underscores (p @ m @ q) = m"
    by (simp only: strip_underscores_def dw_p rev_rev_ident)
qed


lemma text_framed:
  assumes "\<exists>c\<in>set s. c \<noteq> CHR ''_''"
  shows "s = takeWhile (\<lambda>c. c = CHR ''_'') s @ strip_underscores s @
             rev (takeWhile (\<lambda>c. c = CHR ''_'') (rev s))"
    and "strip_underscores s \<noteq> []"
    and "hd (strip_underscores s) \<noteq> CHR ''_''"
    and "last (strip_underscores s) \<noteq> CHR ''_''"
proof -
  let ?u = "\<lambda>c. c = CHR ''_''"
  let ?d = "dropWhile ?u s"
  let ?e = "dropWhile ?u (rev ?d)"
  have d_ne: "?d \<noteq> []" using assms by (auto simp: dropWhile_eq_Nil_conv)
  then have hd_d: "\<not> ?u (hd ?d)" by (rule hd_dropWhile)
  from d_ne have "hd ?d \<in> set (rev ?d)" by simp
  with hd_d have ex_d: "\<exists>c\<in>set (rev ?d). \<not> ?u c" by blast
  then have e_ne: "?e \<noteq> []" by (auto simp: dropWhile_eq_Nil_conv)
  then have hd_e: "\<not> ?u (hd ?e)" by (rule hd_dropWhile)
  have strip: "strip_underscores s = rev ?e" by (simp add: strip_underscores_def)
  show "strip_underscores s \<noteq> []" using e_ne by (simp add: strip)
  show "last (strip_underscores s) \<noteq> CHR ''_''"
    using e_ne hd_e by (simp add: strip last_rev)
  have "rev (takeWhile ?u (rev ?d) @ ?e) = rev (rev ?d)"
    by (simp only: takeWhile_dropWhile_id)
  then have "rev ?e @ rev (takeWhile ?u (rev ?d)) = ?d"
    by (simp only: rev_append rev_rev_ident)
  then have d_split: "?d = rev ?e @ rev (takeWhile ?u (rev ?d))" by (rule sym)
  from e_ne have "hd (rev ?e @ rev (takeWhile ?u (rev ?d))) = hd (rev ?e)" by simp
  with d_split have "hd (rev ?e) = hd ?d" by simp
  then show "hd (strip_underscores s) \<noteq> CHR ''_''" using hd_d by (simp add: strip)
  have "rev (takeWhile ?u s @ ?d) = rev s" by (simp only: takeWhile_dropWhile_id)
  then have "rev ?d @ rev (takeWhile ?u s) = rev s" by (simp only: rev_append)
  then have rs: "rev s = rev ?d @ rev (takeWhile ?u s)" by (rule sym)
  obtain x where x: "x \<in> set (rev ?d)" "\<not> ?u x" using ex_d by auto
  then have "takeWhile ?u (rev ?d @ rev (takeWhile ?u s)) = takeWhile ?u (rev ?d)"
    by (rule takeWhile_append1)
  then have tw: "takeWhile ?u (rev s) = takeWhile ?u (rev ?d)" by (simp only: rs)
  have "takeWhile ?u s @ ?d = s" by (rule takeWhile_dropWhile_id)
  then have "s = takeWhile ?u s @ ?d" by (rule sym)
  also have "?d = rev ?e @ rev (takeWhile ?u (rev s))" using d_split by (simp only: tw)
  finally show "s = takeWhile ?u s @ strip_underscores s @ rev (takeWhile ?u (rev s))"
    by (simp only: strip)
qed

lemma removeUnderscore_framed:
  assumes "\<forall>c\<in>set p. c = CHR ''_''" "\<forall>c\<in>set q. c = CHR ''_''"
    and "m \<noteq> []" "hd m \<noteq> CHR ''_''" "last m \<noteq> CHR ''_''"
  shows "removeUnderscore (p @ m @ q) = p @ removeUnderscore_loop m [] False @ q"
  by (simp only: removeUnderscore_eq framed_parts [OF assms])

lemma all_underscores:
  assumes "\<forall>c\<in>set s. c = CHR ''_''"
  shows "removeUnderscore s = s @ s"
proof -
  let ?u = "\<lambda>c. c = CHR ''_''"
  have 1: "takeWhile ?u s = s" using assms by (simp add: takeWhile_eq_all_conv)
  have 2: "takeWhile ?u (rev s) = rev s"
    using assms by (simp add: takeWhile_eq_all_conv)
  have 3: "dropWhile ?u s = []" using assms by (simp add: dropWhile_eq_Nil_conv)
  have 4: "strip_underscores s = []" by (simp add: strip_underscores_def 3)
  show ?thesis by (simp add: removeUnderscore_eq 1 2 4)
qed



section \<open>Properties of the handler\<close>

lemma properties_of_cases:
  "properties_of opt = (if opt = Some ''never'' then ''never'' else ''always'')"
  by (cases opt) (auto simp: properties_of_def)

lemma member_branch_cases:
  "member_branch h st n nd parent name = Some st' \<Longrightarrow> st' = st \<or> st' = report h st n"
  by (auto simp: member_branch_def split: Option.bind_splits if_splits)

lemma allowed_parent_branch_cases:
  "allowed_parent_branch h st n nd parent name = Some st' \<Longrightarrow> st' = st \<or> st' = report h st n"
  by (auto simp: allowed_parent_branch_def split: Option.bind_splits if_splits)

lemma Identifier_cases:
  "Identifier properties h st n = Some st' \<Longrightarrow> st' = st \<or> st' = report h st n"
  by (auto simp: Identifier_def Let_def split: Option.bind_splits if_splits
      dest: member_branch_cases allowed_parent_branch_cases)





lemma Identifier_member:
  assumes "h n = Some nd" "node_name nd = Some nm" "deref h (node_parent nd) = Some parent"
    and "node_type parent = ''MemberExpression''"
  shows "Identifier properties h st n =
           (if properties = ''never'' then Some st
            else member_branch h st n nd parent (strip_underscores nm))"
  using assms by (simp add: Identifier_def)

lemma Identifier_property:
  assumes "h n = Some nd" "node_name nd = Some nm" "deref h (node_parent nd) = Some parent"
    and "node_type parent = ''Property''"
  shows "Identifier properties h st n =
           (if properties = ''never'' then Some st
            else if (case deref h (node_parent parent) of
                       None \<Rightarrow> False
                     | Some grandparent \<Rightarrow> node_type grandparent = ''ObjectPattern'') \<and>
                    node_key parent = Some n \<and> node_value parent \<noteq> Some n
              then Some st
              else allowed_parent_branch h st n nd parent (strip_underscores nm))"
  using assms by (simp add: Identifier_def)


lemma Identifier_other:
  assumes "h n = Some nd" "node_name nd = Some nm" "deref h (node_parent nd) = Some parent"
    and "node_type parent \<noteq> ''MemberExpression''" "node_type parent \<noteq> ''Property''"
    and "node_type parent \<notin> set import_specifier_types"
  shows "Identifier properties h st n =
           allowed_parent_branch h st n nd parent (strip_underscores nm)"
proof -
  from assms(6) have "\<not> 0 \<le> indexOf import_specifier_types (node_type parent)"
    by (simp only: indexOf_nonneg_iff not_False_eq_True)
  then show ?thesis using assms(1-5) by (simp add: Identifier_def)
qed

lemma allowed_parent_branch_own_parent:
  assumes "deref h (node_parent nd) = Some parent" "node_type parent \<noteq> ''MemberExpression''"
  shows "allowed_parent_branch h st n nd parent name =
           Some (if isUnderscored name \<and> node_type parent \<notin> ALLOWED_PARENT_TYPES
                 then report h st n else st)"
  using assms by (simp add: allowed_parent_branch_def effectiveParent_def)

lemma report_keeps_distinct:
  assumes "distinct (reported_nodes st)" and "set (reported_nodes st) \<subseteq> set (reported st)"
  shows "distinct (reported_nodes (report h st n))"
    and "set (reported_nodes (report h st n)) \<subseteq> set (reported (report h st n))"
  using assms by (auto simp: report_def reported_nodes_def indexOf_neg_iff)

lemma foldl_report_distinct:
  assumes "distinct (reported_nodes st)" and "set (reported_nodes st) \<subseteq> set (reported st)"
  shows "distinct (reported_nodes (foldl (report h) st ns)) \<and>
         set (reported_nodes (foldl (report h) st ns)) \<subseteq> set (reported (foldl (report h) st ns))"
  using assms
proof (induction ns arbitrary: st)
  case Nil
  then show ?case by simp
next
  case (Cons n ns)
  from Cons.IH [OF report_keeps_distinct [OF Cons.prems, of h n]] show ?case by simp
qed

lemma traverse_distinct:
  assumes "traverse properties h st ns = Some st'"
    and "distinct (reported_nodes st)" and "set (reported_nodes st) \<subseteq> set (reported st)"
  shows "distinct (reported_nodes st') \<and> set (reported_nodes st') \<subseteq> set (reported st')"
  using assms
proof (induction ns arbitrary: st)
  case Nil
  then show ?case by simp
next
  case (Cons n ns)
  from Cons.prems(1) obtain s1 where s1: "Identifier properties h st n = Some s1"
    and rest: "traverse properties h s1 ns = Some st'"
    by (auto split: option.splits)
  from Identifier_cases [OF s1] have "s1 = st \<or> s1 = report h st n" .
  then have "distinct (reported_nodes s1) \<and> set (reported_nodes s1) \<subseteq> set (reported s1)"
    using Cons.prems(2,3) report_keeps_distinct [OF Cons.prems(2,3), of h n] by auto
  then show ?case using Cons.IH [OF rest] by simp
qed

lemma distinct_count_list_le_1: "distinct xs \<Longrightarrow> count_list xs x \<le> 1"
  by (induction xs) (auto simp: count_list_0_iff)

lemma report_context_reports:
  "context_reports (report h st n) =
     (if n \<in> set (reported st) then context_reports st
      else context_reports st @
        [\<lparr>d_node = n, d_message = message,
          d_name = (case h n of None \<Rightarrow> None | Some nd \<Rightarrow> node_name nd)\<rparr>])"
  by (simp add: report_def indexOf_neg_iff)

lemma report_reported:
  "reported (report h st n) =
     (if n \<in> set (reported st) then reported st else reported st @ [n])"
  by (simp add: report_def indexOf_neg_iff)

lemma observed_result:
  assumes "h n = Some nd" and "node_name nd = Some nm"
    and "r = Some (if b then report h st n else st)"
  shows "map_option context_reports r =
           Some (if b \<and> n \<notin> set (reported st)
                 then context_reports st @
                   [\<lparr>d_node = n, d_message = message, d_name = Some nm\<rparr>]
                 else context_reports st) \<and>
         map_option reported r =
           Some (if b \<and> n \<notin> set (reported st) then reported st @ [n] else reported st)"
  using assms by (simp add: report_context_reports report_reported)

lemma member_branch_assignment:
  assumes "deref h (node_object parent) = Some obj"
    and "\<not> (node_type obj = ''Identifier'' \<and> node_name obj = node_name nd \<and> isUnderscored name)"
    and "deref h (effectiveParent nd parent) = Some ep"
  shows "member_branch h st n nd parent name =
      (if node_type ep = ''AssignmentExpression'' \<and> isUnderscored name
       then do {
           r \<leftarrow> deref h (node_right ep);
           if node_type r \<noteq> ''MemberExpression'' then Some (report h st n)
           else do {
             l \<leftarrow> deref h (node_left ep);
             if node_type l = ''MemberExpression''
             then do {
               p \<leftarrow> deref h (node_property l);
               if node_name p = node_name nd then Some (report h st n) else Some st
             }
             else Some st
           }
         }
       else Some st)"
  unfolding member_branch_def using assms by auto

lemmas string_defs =
  removeUnderscore_def privateFlagPrefixRegExp_exec_def privateFlagSuffixRegExp_exec_def
  strip_underscores_def toUpperCase_def toUpperCase_char_def lower_letters_def
  upper_letters_def isUnderscored_def indexOf_def

lemmas tree_defs =
  call_argument_tree_def declarator_tree_def member_assignment_tree_def member_read_tree_def
  member_copy_tree_def shorthand_pattern_tree_def renaming_pattern_tree_def import_as_tree_def
  import_tree_def new_node_def new_identifier_def deref_def

lemmas handler_defs =
  Identifier_def member_branch_def allowed_parent_branch_def effectiveParent_def
  ALLOWED_PARENT_TYPES_def import_specifier_types_def report_def reported_nodes_def
  initial_state_def

text \<open>
  In \<^verbatim>\<open>a.my_prop = b.my_prop\<close> the property on the right, node 8, is reported as
  well: the test of the left side compares the name of its property with the name of
  the identifier, where the comment above it speaks of the left side of the assignment.
\<close>

lemma member_copy_same_name:
  "map_option reported_nodes
     (Identifier ''always'' (member_copy_tree ''my_prop'' ''my_prop'') initial_state 8) = Some [8]"
  by (simp add: handler_defs tree_defs string_defs)

section \<open>The rewriter\<close>

text \<open>
  C5, as amended. \<^verbatim>\<open>removeUnderscore("FOO_bar")\<close> is \<^verbatim>\<open>"FOOBar"\<close>: the
  characters that do not follow an underscore are copied as they are, so \<^verbatim>\<open>FOO\<close>
  keeps its case, the underscore is dropped, and the character after it is uppercased,
  so \<^verbatim>\<open>b\<close> becomes \<^verbatim>\<open>B\<close>. In general, in the scan of the loop, a stretch
  \<open>w\<close> without underscores is copied, and after one underscore the next character
  \<open>c\<close> is uppercased.
\<close>

theorem removeUnderscore_mixed_case:
  "removeUnderscore ''FOO_bar'' = ''FOOBar'' \<and>
   (CHR ''_'' \<notin> set w \<and> c \<noteq> CHR ''_'' \<longrightarrow>
      removeUnderscore_loop (w @ CHR ''_'' # c # r) [] False =
        w @ toUpperCase_char c # removeUnderscore_loop r [] False)"
proof
  show "removeUnderscore ''FOO_bar'' = ''FOOBar''"
    by (simp add: string_defs)
  show "CHR ''_'' \<notin> set w \<and> c \<noteq> CHR ''_'' \<longrightarrow>
      removeUnderscore_loop (w @ CHR ''_'' # c # r) [] False =
        w @ toUpperCase_char c # removeUnderscore_loop r [] False"
  proof
    assume a: "CHR ''_'' \<notin> set w \<and> c \<noteq> CHR ''_''"
    have "removeUnderscore_loop (w @ u) acc False = removeUnderscore_loop u (acc @ w) False"
      if "CHR ''_'' \<notin> set w" for w u acc
      using that by (induction w arbitrary: acc) auto
    from this [of w "CHR ''_'' # c # r" "[]"] a
    have "removeUnderscore_loop (w @ CHR ''_'' # c # r) [] False =
          removeUnderscore_loop r (w @ [toUpperCase_char c]) False"
      by simp
    also have "\<dots> = (w @ [toUpperCase_char c]) @ removeUnderscore_loop r [] False"
      by (rule loop_acc)
    finally show "removeUnderscore_loop (w @ CHR ''_'' # c # r) [] False =
        w @ toUpperCase_char c # removeUnderscore_loop r [] False"
      by simp
  qed
qed

theorem removeUnderscore_mixed_case_witness:
  "removeUnderscore_loop ''FOO_bar'' [] False =
     ''FOO'' @ toUpperCase_char CHR ''b'' # removeUnderscore_loop ''ar'' [] False \<and>
   removeUnderscore ''FOO_bar'' = ''FOOBar''"
  using removeUnderscore_mixed_case [of "''FOO''" "CHR ''b''" "''ar''"] by simp

theorem removeUnderscore_mixed_case_counterexample:
  "removeUnderscore ''FOO_bar'' \<noteq> ''FOObar''"
  by (simp add: string_defs)

text \<open>
  C7. \<^verbatim>\<open>removeUnderscore\<close> computes what the specification describes, for every
  text: the leading and the trailing run of underscores are kept as they are, the
  underscores between them are dropped, the first character after each dropped run is
  uppercased, and consecutive underscores count as one. The four examples follow.
\<close>

theorem removeUnderscore_rewrite_spec:
  "removeUnderscore text = rewrite_spec text \<and>
   removeUnderscore ''_foo'' = ''_foo'' \<and>
   removeUnderscore ''foo_bar'' = ''fooBar'' \<and>
   removeUnderscore ''__private_name__'' = ''__privateName__'' \<and>
   removeUnderscore ''foo__bar'' = ''fooBar''"
proof -
  have "removeUnderscore text = rewrite_spec text"
    by (simp add: removeUnderscore_eq rewrite_spec_def loop_words)
  moreover have "removeUnderscore ''_foo'' = ''_foo''" by (simp add: string_defs)
  moreover have "removeUnderscore ''foo_bar'' = ''fooBar''" by (simp add: string_defs)
  moreover have "removeUnderscore ''__private_name__'' = ''__privateName__''"
    by (simp add: string_defs)
  moreover have "removeUnderscore ''foo__bar'' = ''fooBar''" by (simp add: string_defs)
  ultimately show ?thesis by simp
qed

text \<open>
  C10. On every text that has a character other than the underscore,
  \<^verbatim>\<open>removeUnderscore\<close> is idempotent: its result has the same leading and trailing
  runs, and no underscore between them. On a text of underscores only, both regular
  expressions match the whole text, and the result is the text twice.
\<close>

theorem removeUnderscore_idempotent:
  "((\<exists>c\<in>set s. c \<noteq> CHR ''_'') \<longrightarrow>
      removeUnderscore (removeUnderscore s) = removeUnderscore s) \<and>
   ((\<forall>c\<in>set s. c = CHR ''_'') \<longrightarrow> removeUnderscore s = s @ s)"
proof (intro conjI impI)
  assume "\<forall>c\<in>set s. c = CHR ''_''"
  then show "removeUnderscore s = s @ s" by (rule all_underscores)
next
  assume ex: "\<exists>c\<in>set s. c \<noteq> CHR ''_''"
  let ?u = "\<lambda>c. c = CHR ''_''"
  let ?p = "takeWhile ?u s" and ?m = "strip_underscores s" and ?q = "rev (takeWhile ?u (rev s))"
  let ?l = "removeUnderscore_loop ?m [] False"
  have p: "\<forall>c\<in>set ?p. c = CHR ''_''" using set_takeWhileD [of _ ?u s] by blast
  have q: "\<forall>c\<in>set ?q. c = CHR ''_''" using set_takeWhileD [of _ ?u "rev s"] by auto
  note fr = text_framed [OF ex]
  have l_ne: "?l \<noteq> []" using fr(2,3) by (rule loop_nonempty)
  have l_nu: "CHR ''_'' \<notin> set ?l" by (rule loop_output_no_underscore) simp
  from l_ne have "hd ?l \<in> set ?l" by (rule hd_in_set)
  with l_nu have hd_l: "hd ?l \<noteq> CHR ''_''" by metis
  from l_ne have "last ?l \<in> set ?l" by (rule last_in_set)
  with l_nu have last_l: "last ?l \<noteq> CHR ''_''" by metis
  have first: "removeUnderscore s = ?p @ ?l @ ?q" by (rule removeUnderscore_eq)
  have "removeUnderscore (?p @ ?l @ ?q) = ?p @ removeUnderscore_loop ?l [] False @ ?q"
    using p q l_ne hd_l last_l by (rule removeUnderscore_framed)
  also have "removeUnderscore_loop ?l [] False = ?l" using l_nu by (rule loop_no_underscore)
  finally show "removeUnderscore (removeUnderscore s) = removeUnderscore s"
    by (simp only: first)
qed

theorem removeUnderscore_idempotent_witness:
  "removeUnderscore (removeUnderscore ''__my_private_name_'') =
     removeUnderscore ''__my_private_name_'' \<and>
   removeUnderscore ''__my_private_name_'' = ''__myPrivateName_'' \<and>
   removeUnderscore ''__'' = ''____''"
proof -
  have "\<exists>c\<in>set ''__my_private_name_''. c \<noteq> CHR ''_''" by simp
  with removeUnderscore_idempotent [of "''__my_private_name_''"]
  have "removeUnderscore (removeUnderscore ''__my_private_name_'') =
     removeUnderscore ''__my_private_name_''" by blast
  moreover have "removeUnderscore ''__my_private_name_'' = ''__myPrivateName_''"
    by (simp add: string_defs)
  moreover have "removeUnderscore ''__'' = ''____''"
    using removeUnderscore_idempotent [of "''__''"] by simp
  ultimately show ?thesis by simp
qed

section \<open>The classifier\<close>

text \<open>
  C1, as amended. For an identifier with an ASCII name that is the key or the value of a
  property, under \<^verbatim>\<open>"always"\<close>, and not the key of a destructuring entry that
  renames: \<^verbatim>\<open>context.report\<close> receives the node, with its name, exactly when the
  stripped name is underscored and the node has not been reported before. The effective
  parent that is tested against \<^verbatim>\<open>ALLOWED_PARENT_TYPES\<close> is the
  \<^verbatim>\<open>Property\<close> node itself, which is never a call or a construction: where the
  object literal stands plays no part. The key \<^verbatim>\<open>my_option\<close> is reported in
  \<^verbatim>\<open>foo({my_option: 1})\<close> as it is in \<^verbatim>\<open>const cfg = {my_option: 1}\<close>.
\<close>

theorem property_identifier_always:
  assumes "h n = Some nd" and "node_name nd = Some nm" and "ascii_text nm"
    and "deref h (node_parent nd) = Some parent" and "node_type parent = ''Property''"
    and "\<not> ((\<exists>g. deref h (node_parent parent) = Some g \<and> node_type g = ''ObjectPattern'') \<and>
            node_key parent = Some n \<and> node_value parent \<noteq> Some n)"
  shows "deref h (effectiveParent nd parent) = Some parent \<and>
         node_type parent \<notin> ALLOWED_PARENT_TYPES \<and>
         map_option context_reports (Identifier ''always'' h st n) =
           Some (if isUnderscored (strip_underscores nm) \<and> n \<notin> set (reported st)
                 then context_reports st @
                   [\<lparr>d_node = n, d_message = message, d_name = Some nm\<rparr>]
                 else context_reports st) \<and>
         map_option reported (Identifier ''always'' h st n) =
           Some (if isUnderscored (strip_underscores nm) \<and> n \<notin> set (reported st)
                 then reported st @ [n] else reported st)"
proof -
  have np: "node_type parent \<noteq> ''MemberExpression''" using assms(5) by simp
  have al: "node_type parent \<notin> ALLOWED_PARENT_TYPES"
    using assms(5) by (simp add: ALLOWED_PARENT_TYPES_def)
  have ep: "deref h (effectiveParent nd parent) = Some parent"
    using assms(4) np by (simp add: effectiveParent_def)
  have "\<not> ((case deref h (node_parent parent) of
                None \<Rightarrow> False
              | Some grandparent \<Rightarrow> node_type grandparent = ''ObjectPattern'') \<and>
            node_key parent = Some n \<and> node_value parent \<noteq> Some n)"
    using assms(6) by (auto split: option.splits)
  then have "Identifier ''always'' h st n =
      allowed_parent_branch h st n nd parent (strip_underscores nm)"
    using Identifier_property [OF assms(1,2,4,5), of "''always''" st] by auto
  also have "\<dots> = Some (if isUnderscored (strip_underscores nm) then report h st n else st)"
    using allowed_parent_branch_own_parent [OF assms(4) np, of st n "strip_underscores nm"] al
    by simp
  finally have "Identifier ''always'' h st n =
      Some (if isUnderscored (strip_underscores nm) then report h st n else st)" .
  from observed_result [OF assms(1,2) this] ep al show ?thesis by blast
qed

theorem property_identifier_always_witness:
  "map_option context_reports
     (Identifier ''always'' (call_argument_tree ''my_option'') initial_state 6) =
       Some [\<lparr>d_node = 6, d_message = message, d_name = Some ''my_option''\<rparr>] \<and>
   map_option context_reports
     (Identifier ''always'' (declarator_tree ''cfg'' ''my_option'') initial_state 6) =
       Some [\<lparr>d_node = 6, d_message = message, d_name = Some ''my_option''\<rparr>] \<and>
   map_option context_reports
     (Identifier ''always'' (declarator_tree ''cfg'' ''my_option'')
        \<lparr>reported = [3], context_reports = []\<rparr> 6) =
       Some [\<lparr>d_node = 6, d_message = message, d_name = Some ''my_option''\<rparr>]"
proof -
  let ?h = "call_argument_tree ''my_option''"
  let ?g = "declarator_tree ''cfg'' ''my_option''"
  let ?nd = "new_identifier ''my_option'' (Some 5)"
  let ?p = "(new_node ''Property'' (Some 4))\<lparr>node_key := Some 6, node_value := Some 7\<rparr>"
  have u: "isUnderscored (strip_underscores ''my_option'')" by (simp add: string_defs)
  have a: "ascii_text ''my_option''" by (simp add: ascii_text_def)
  have h6: "?h 6 = Some ?nd" and g6: "?g 6 = Some ?nd" by (simp_all add: tree_defs)
  have nm: "node_name ?nd = Some ''my_option''" by (simp add: tree_defs)
  have hp: "deref ?h (node_parent ?nd) = Some ?p" and gp: "deref ?g (node_parent ?nd) = Some ?p"
    by (simp_all add: tree_defs)
  have tp: "node_type ?p = ''Property''" by (simp add: tree_defs)
  have hk: "\<not> ((\<exists>g. deref ?h (node_parent ?p) = Some g \<and> node_type g = ''ObjectPattern'') \<and>
            node_key ?p = Some 6 \<and> node_value ?p \<noteq> Some 6)"
    and gk: "\<not> ((\<exists>g. deref ?g (node_parent ?p) = Some g \<and> node_type g = ''ObjectPattern'') \<and>
            node_key ?p = Some 6 \<and> node_value ?p \<noteq> Some 6)"
    by (simp_all add: tree_defs)
  from property_identifier_always [where h = ?h and n = 6 and st = initial_state,
      OF h6 nm a hp tp hk] u
  have 1: "map_option context_reports (Identifier ''always'' ?h initial_state 6) =
       Some [\<lparr>d_node = 6, d_message = message, d_name = Some ''my_option''\<rparr>]"
    by (simp add: initial_state_def)
  from property_identifier_always [where h = ?g and n = 6 and st = initial_state,
      OF g6 nm a gp tp gk] u
  have 2: "map_option context_reports (Identifier ''always'' ?g initial_state 6) =
       Some [\<lparr>d_node = 6, d_message = message, d_name = Some ''my_option''\<rparr>]"
    by (simp add: initial_state_def)
  from property_identifier_always [where h = ?g and n = 6
      and st = "\<lparr>reported = [3], context_reports = []\<rparr>", OF g6 nm a gp tp gk] u
  have 3: "map_option context_reports
      (Identifier ''always'' ?g \<lparr>reported = [3], context_reports = []\<rparr> 6) =
       Some [\<lparr>d_node = 6, d_message = message, d_name = Some ''my_option''\<rparr>]"
    by simp
  from 1 2 3 show ?thesis by blast
qed

theorem call_argument_key_counterexample:
  "map_option reported_nodes
     (Identifier ''always'' (call_argument_tree ''my_option'') initial_state 6) = Some [6]"
  by (simp add: handler_defs tree_defs string_defs)

text \<open>
  C2, as amended. For an identifier with an ASCII name whose parent is a
  \<^verbatim>\<open>MemberExpression\<close>, under \<^verbatim>\<open>"always"\<close>, where the object of the access is
  not an identifier of the same name with an underscored stripped name (so the identifier
  is not the underscored object itself): nothing is reported unless the member access is
  an operand of an assignment and the stripped name, without its leading and trailing
  underscores, is underscored. When the member access is the left-hand side of the
  assignment and the identifier is its property, \<^verbatim>\<open>context.report\<close> receives the
  node exactly when the stripped name is underscored and the node has not been reported
  before: \<^verbatim>\<open>obj.my_prop = 5\<close> is reported, \<^verbatim>\<open>obj._prop = 5\<close> is not, its
  stripped name being \<^verbatim>\<open>prop\<close>. When the right-hand side is a member access and
  the left-hand side is no member access, as in \<^verbatim>\<open>x = obj._prop\<close> and
  \<^verbatim>\<open>x = obj.my_prop\<close>, or a member access whose property has another name, as in
  \<^verbatim>\<open>a.x = b.my_prop\<close>, nothing is reported.
\<close>

theorem member_identifier_always:
  assumes "h n = Some nd" and "node_name nd = Some nm" and "ascii_text nm"
    and "deref h (node_parent nd) = Some parent"
    and "node_type parent = ''MemberExpression''"
    and "deref h (node_object parent) = Some obj"
    and "\<not> (node_type obj = ''Identifier'' \<and> node_name obj = Some nm \<and>
            isUnderscored (strip_underscores nm))"
    and "deref h (node_parent parent) = Some ep"
  shows "(node_type ep \<noteq> ''AssignmentExpression'' \<or> \<not> isUnderscored (strip_underscores nm) \<longrightarrow>
            Identifier ''always'' h st n = Some st) \<and>
         (node_type ep = ''AssignmentExpression'' \<and> node_left ep = node_parent nd \<and>
          node_property parent = Some n \<and> deref h (node_right ep) \<noteq> None \<longrightarrow>
            map_option context_reports (Identifier ''always'' h st n) =
              Some (if isUnderscored (strip_underscores nm) \<and> n \<notin> set (reported st)
                    then context_reports st @
                      [\<lparr>d_node = n, d_message = message, d_name = Some nm\<rparr>]
                    else context_reports st) \<and>
            map_option reported (Identifier ''always'' h st n) =
              Some (if isUnderscored (strip_underscores nm) \<and> n \<notin> set (reported st)
                    then reported st @ [n] else reported st)) \<and>
         (node_type ep = ''AssignmentExpression'' \<and>
          (\<exists>r. deref h (node_right ep) = Some r \<and> node_type r = ''MemberExpression'') \<and>
          (\<exists>l. deref h (node_left ep) = Some l \<and>
             (node_type l \<noteq> ''MemberExpression'' \<or>
              (\<exists>p. deref h (node_property l) = Some p \<and> node_name p \<noteq> Some nm))) \<longrightarrow>
            Identifier ''always'' h st n = Some st)"
proof -
  let ?name = "strip_underscores nm"
  have eq: "Identifier ''always'' h st n = member_branch h st n nd parent ?name"
    using Identifier_member [OF assms(1,2,4,5), of "''always''" st] by simp
  have ep: "deref h (effectiveParent nd parent) = Some ep"
    using assms(5,8) by (simp add: effectiveParent_def)
  have first: "\<not> (node_type obj = ''Identifier'' \<and> node_name obj = node_name nd \<and>
                   isUnderscored ?name)"
    using assms(2,7) by simp
  note mb = member_branch_assignment [OF assms(6) first ep, of st n]
  have a: "Identifier ''always'' h st n = Some st"
    if "node_type ep \<noteq> ''AssignmentExpression'' \<or> \<not> isUnderscored ?name"
    using that eq mb by auto
  have b: "map_option context_reports (Identifier ''always'' h st n) =
              Some (if isUnderscored ?name \<and> n \<notin> set (reported st)
                    then context_reports st @
                      [\<lparr>d_node = n, d_message = message, d_name = Some nm\<rparr>]
                    else context_reports st) \<and>
            map_option reported (Identifier ''always'' h st n) =
              Some (if isUnderscored ?name \<and> n \<notin> set (reported st)
                    then reported st @ [n] else reported st)"
    if "node_type ep = ''AssignmentExpression'' \<and> node_left ep = node_parent nd \<and>
        node_property parent = Some n \<and> deref h (node_right ep) \<noteq> None"
  proof -
    from that obtain r where r: "deref h (node_right ep) = Some r" by auto
    from that assms(4) have l: "deref h (node_left ep) = Some parent" by simp
    from that assms(1) have p: "deref h (node_property parent) = Some nd"
      by (simp add: deref_def)
    have "Identifier ''always'' h st n =
        Some (if isUnderscored ?name then report h st n else st)"
      using that eq mb r l p assms(5) by simp
    from observed_result [OF assms(1,2) this] show ?thesis .
  qed
  have c: "Identifier ''always'' h st n = Some st"
    if "node_type ep = ''AssignmentExpression'' \<and>
        (\<exists>r. deref h (node_right ep) = Some r \<and> node_type r = ''MemberExpression'') \<and>
        (\<exists>l. deref h (node_left ep) = Some l \<and>
           (node_type l \<noteq> ''MemberExpression'' \<or>
            (\<exists>p. deref h (node_property l) = Some p \<and> node_name p \<noteq> Some nm)))"
    using that eq mb assms(2) by auto
  from a b c show ?thesis by blast
qed

theorem member_identifier_always_witness:
  "map_option context_reports
     (Identifier ''always'' (member_assignment_tree ''my_prop'') initial_state 5) =
       Some [\<lparr>d_node = 5, d_message = message, d_name = Some ''my_prop''\<rparr>] \<and>
   map_option context_reports
     (Identifier ''always'' (member_assignment_tree ''_prop'') initial_state 5) = Some [] \<and>
   Identifier ''always'' (member_read_tree ''_prop'') initial_state 6 = Some initial_state \<and>
   Identifier ''always'' (member_read_tree ''my_prop'') initial_state 6 = Some initial_state \<and>
   Identifier ''always'' (member_copy_tree ''x'' ''my_prop'') initial_state 8 =
     Some initial_state"
proof -
  let ?a = "\<lambda>p. (new_node ''AssignmentExpression'' (Some 1))\<lparr>node_left := Some 3, node_right := Some p\<rparr>"
  let ?m = "\<lambda>p a b. (new_node ''MemberExpression'' (Some p))\<lparr>node_object := Some a, node_property := Some b\<rparr>"
  have u: "isUnderscored (strip_underscores ''my_prop'')"
    and v: "\<not> isUnderscored (strip_underscores ''_prop'')"
    by (simp_all add: string_defs)
  have asc: "ascii_text ''my_prop''" "ascii_text ''_prop''" by (simp_all add: ascii_text_def)
  have "map_option context_reports
     (Identifier ''always'' (member_assignment_tree ''my_prop'') initial_state 5) =
       Some [\<lparr>d_node = 5, d_message = message, d_name = Some ''my_prop''\<rparr>]"
    using member_identifier_always [of "member_assignment_tree ''my_prop''" 5
        "new_identifier ''my_prop'' (Some 3)" "''my_prop''" "?m 2 4 5"
        "new_identifier ''obj'' (Some 3)" "?a 6" initial_state] u asc
    by (simp add: tree_defs initial_state_def)
  moreover have "map_option context_reports
     (Identifier ''always'' (member_assignment_tree ''_prop'') initial_state 5) = Some []"
    using member_identifier_always [of "member_assignment_tree ''_prop''" 5
        "new_identifier ''_prop'' (Some 3)" "''_prop''" "?m 2 4 5"
        "new_identifier ''obj'' (Some 3)" "?a 6" initial_state] v asc
    by (simp add: tree_defs initial_state_def)
  moreover have "Identifier ''always'' (member_read_tree ''_prop'') initial_state 6 =
          Some initial_state"
    using member_identifier_always [of "member_read_tree ''_prop''" 6
        "new_identifier ''_prop'' (Some 4)" "''_prop''" "?m 2 5 6"
        "new_identifier ''obj'' (Some 4)" "?a 4" initial_state] v asc
    by (simp add: tree_defs)
  moreover have "Identifier ''always'' (member_read_tree ''my_prop'') initial_state 6 =
          Some initial_state"
    using member_identifier_always [of "member_read_tree ''my_prop''" 6
        "new_identifier ''my_prop'' (Some 4)" "''my_prop''" "?m 2 5 6"
        "new_identifier ''obj'' (Some 4)" "?a 4" initial_state] asc
    by (simp add: tree_defs)
  moreover have "Identifier ''always'' (member_copy_tree ''x'' ''my_prop'') initial_state 8 =
          Some initial_state"
    using member_identifier_always [of "member_copy_tree ''x'' ''my_prop''" 8
        "new_identifier ''my_prop'' (Some 6)" "''my_prop''" "?m 2 7 8"
        "new_identifier ''b'' (Some 6)" "?a 6" initial_state] asc
    by (simp add: tree_defs)
  ultimately show ?thesis by blast
qed

theorem member_assignment_counterexample:
  "map_option reported_nodes
     (Identifier ''always'' (member_assignment_tree ''_prop'') initial_state 5) = Some []"
  by (simp add: handler_defs tree_defs string_defs)

text \<open>
  C3, as amended. For an identifier with an ASCII name that is the key of a property of
  an \<^verbatim>\<open>ObjectPattern\<close>, under \<^verbatim>\<open>"always"\<close>: when the value of the property is
  another node, as in \<^verbatim>\<open>{my_key: local}\<close>, the handler returns without reporting;
  when key and value are the same node, the shorthand \<^verbatim>\<open>{my_field}\<close>, the identifier
  is judged in the property branch, and \<^verbatim>\<open>context.report\<close> receives the node
  exactly when its stripped name is underscored and the node has not been reported
  before.
\<close>

theorem pattern_key_always:
  assumes "h n = Some nd" and "node_name nd = Some nm" and "ascii_text nm"
    and "deref h (node_parent nd) = Some parent" and "node_type parent = ''Property''"
    and "deref h (node_parent parent) = Some grandparent"
    and "node_type grandparent = ''ObjectPattern''"
    and "node_key parent = Some n"
  shows "(node_value parent \<noteq> Some n \<longrightarrow> Identifier ''always'' h st n = Some st) \<and>
         (node_value parent = Some n \<longrightarrow>
            map_option context_reports (Identifier ''always'' h st n) =
              Some (if isUnderscored (strip_underscores nm) \<and> n \<notin> set (reported st)
                    then context_reports st @
                      [\<lparr>d_node = n, d_message = message, d_name = Some nm\<rparr>]
                    else context_reports st) \<and>
            map_option reported (Identifier ''always'' h st n) =
              Some (if isUnderscored (strip_underscores nm) \<and> n \<notin> set (reported st)
                    then reported st @ [n] else reported st))"
proof -
  have np: "node_type parent \<noteq> ''MemberExpression''" using assms(5) by simp
  have al: "node_type parent \<notin> ALLOWED_PARENT_TYPES"
    using assms(5) by (simp add: ALLOWED_PARENT_TYPES_def)
  have eq: "Identifier ''always'' h st n =
      (if node_value parent \<noteq> Some n then Some st
       else allowed_parent_branch h st n nd parent (strip_underscores nm))"
    using Identifier_property [OF assms(1,2,4,5), of "''always''" st] assms(6-8) by simp
  have br: "allowed_parent_branch h st n nd parent (strip_underscores nm) =
      Some (if isUnderscored (strip_underscores nm) then report h st n else st)"
    using allowed_parent_branch_own_parent [OF assms(4) np, of st n "strip_underscores nm"] al
    by simp
  have a: "Identifier ''always'' h st n = Some st" if "node_value parent \<noteq> Some n"
    using that eq by simp
  have b: "map_option context_reports (Identifier ''always'' h st n) =
              Some (if isUnderscored (strip_underscores nm) \<and> n \<notin> set (reported st)
                    then context_reports st @
                      [\<lparr>d_node = n, d_message = message, d_name = Some nm\<rparr>]
                    else context_reports st) \<and>
            map_option reported (Identifier ''always'' h st n) =
              Some (if isUnderscored (strip_underscores nm) \<and> n \<notin> set (reported st)
                    then reported st @ [n] else reported st)"
    if "node_value parent = Some n"
  proof -
    have "Identifier ''always'' h st n =
        Some (if isUnderscored (strip_underscores nm) then report h st n else st)"
      using that eq br by simp
    from observed_result [OF assms(1,2) this] show ?thesis .
  qed
  from a b show ?thesis by blast
qed

theorem pattern_key_always_witness:
  "Identifier ''always'' (renaming_pattern_tree ''my_key'' ''local'') initial_state 5 =
     Some initial_state \<and>
   map_option context_reports
     (Identifier ''always'' (shorthand_pattern_tree ''my_field'') initial_state 5) =
       Some [\<lparr>d_node = 5, d_message = message, d_name = Some ''my_field''\<rparr>]"
proof -
  let ?p = "\<lambda>v. (new_node ''Property'' (Some 3))\<lparr>node_key := Some 5, node_value := Some v\<rparr>"
  have u: "isUnderscored (strip_underscores ''my_field'')" by (simp add: string_defs)
  have asc: "ascii_text ''my_field''" "ascii_text ''my_key''" by (simp_all add: ascii_text_def)
  have "Identifier ''always'' (renaming_pattern_tree ''my_key'' ''local'') initial_state 5 =
          Some initial_state"
    using pattern_key_always [of "renaming_pattern_tree ''my_key'' ''local''" 5
        "new_identifier ''my_key'' (Some 4)" "''my_key''" "?p 7"
        "new_node ''ObjectPattern'' (Some 2)" initial_state] asc
    by (simp add: tree_defs)
  moreover have "map_option context_reports
     (Identifier ''always'' (shorthand_pattern_tree ''my_field'') initial_state 5) =
       Some [\<lparr>d_node = 5, d_message = message, d_name = Some ''my_field''\<rparr>]"
    using pattern_key_always [of "shorthand_pattern_tree ''my_field''" 5
        "new_identifier ''my_field'' (Some 4)" "''my_field''" "?p 5"
        "new_node ''ObjectPattern'' (Some 2)" initial_state] u asc
    by (simp add: tree_defs initial_state_def)
  ultimately show ?thesis by blast
qed

theorem shorthand_key_counterexample:
  "map_option reported_nodes
     (Identifier ''always'' (shorthand_pattern_tree ''my_field'') initial_state 5) = Some [5]"
  by (simp add: handler_defs tree_defs string_defs)

text \<open>
  C4, as amended. Under \<^verbatim>\<open>"never"\<close>, an identifier whose parent is a
  \<^verbatim>\<open>MemberExpression\<close> or a \<^verbatim>\<open>Property\<close> is never reported. Every other
  identifier, the names in import specifiers among them, is judged as under
  \<^verbatim>\<open>"always"\<close>: the key \<^verbatim>\<open>my_key\<close> of \<^verbatim>\<open>{my_key: 1}\<close> is not reported,
  the variable \<^verbatim>\<open>my_var\<close> is, and so is \<^verbatim>\<open>my_export\<close> in
  \<^verbatim>\<open>import { my_export } from "m"\<close>.
\<close>

theorem never_exempts_properties:
  assumes "h n = Some nd" and "node_name nd = Some nm"
    and "deref h (node_parent nd) = Some parent"
  shows "(node_type parent = ''MemberExpression'' \<or> node_type parent = ''Property'' \<longrightarrow>
            Identifier ''never'' h st n = Some st) \<and>
         (node_type parent \<noteq> ''MemberExpression'' \<and> node_type parent \<noteq> ''Property'' \<longrightarrow>
            Identifier ''never'' h st n = Identifier ''always'' h st n)"
  using assms by (simp add: Identifier_def)

theorem never_exempts_properties_witness:
  "map_option reported_nodes
     (Identifier ''never'' (declarator_tree ''my_var'' ''my_key'') initial_state 6) = Some [] \<and>
   map_option reported_nodes
     (Identifier ''never'' (member_assignment_tree ''my_prop'') initial_state 5) = Some [] \<and>
   map_option reported_nodes
     (Identifier ''never'' (declarator_tree ''my_var'' ''my_key'') initial_state 3) = Some [3] \<and>
   map_option reported_nodes
     (Identifier ''never'' (import_tree ''my_export'') initial_state 3) = Some [3]"
proof -
  have "Identifier ''never'' (declarator_tree ''my_var'' ''my_key'') initial_state 6 =
          Some initial_state"
    using never_exempts_properties [of "declarator_tree ''my_var'' ''my_key''" 6
        "new_identifier ''my_key'' (Some 5)" "''my_key''"
        "(new_node ''Property'' (Some 4))\<lparr>node_key := Some 6, node_value := Some 7\<rparr>"
        initial_state]
    by (simp add: tree_defs)
  moreover have "Identifier ''never'' (member_assignment_tree ''my_prop'') initial_state 5 =
          Some initial_state"
    using never_exempts_properties [of "member_assignment_tree ''my_prop''" 5
        "new_identifier ''my_prop'' (Some 3)" "''my_prop''"
        "(new_node ''MemberExpression'' (Some 2))\<lparr>node_object := Some 4, node_property := Some 5\<rparr>"
        initial_state]
    by (simp add: tree_defs)
  moreover have "Identifier ''never'' (declarator_tree ''my_var'' ''my_key'') initial_state 3 =
          Identifier ''always'' (declarator_tree ''my_var'' ''my_key'') initial_state 3"
    using never_exempts_properties [of "declarator_tree ''my_var'' ''my_key''" 3
        "new_identifier ''my_var'' (Some 2)" "''my_var''"
        "new_node ''VariableDeclarator'' (Some 1)" initial_state]
    by (simp add: tree_defs)
  moreover have "map_option reported_nodes
      (Identifier ''always'' (declarator_tree ''my_var'' ''my_key'') initial_state 3) = Some [3]"
    by (simp add: handler_defs tree_defs string_defs)
  moreover have "Identifier ''never'' (import_tree ''my_export'') initial_state 3 =
          Identifier ''always'' (import_tree ''my_export'') initial_state 3"
    using never_exempts_properties [of "import_tree ''my_export''" 3
        "new_identifier ''my_export'' (Some 2)" "''my_export''"
        "(new_node ''ImportSpecifier'' (Some 1))\<lparr>node_local := Some 3\<rparr>" initial_state]
    by (simp add: tree_defs)
  moreover have "map_option reported_nodes
      (Identifier ''always'' (import_tree ''my_export'') initial_state 3) = Some [3]"
    by (simp add: handler_defs tree_defs string_defs)
  ultimately show ?thesis by (simp add: reported_nodes_def initial_state_def)
qed

theorem never_import_counterexample:
  "map_option reported_nodes
     (Identifier ''never'' (import_tree ''my_export'') initial_state 3) = Some [3]"
  by (simp add: handler_defs tree_defs string_defs)





text \<open>
  C9. In one traversal, which starts with nothing reported, a node is handed to
  \<^verbatim>\<open>context.report\<close> at most once: after every sequence of calls of
  \<^verbatim>\<open>report\<close>, and after every sequence of calls of the handler. The shorthand
  \<^verbatim>\<open>{my_field} = obj\<close>, whose identifier is visited twice, yields one report.
\<close>

theorem reported_at_most_once:
  "count_list (reported_nodes (foldl (report h) initial_state ns)) n \<le> 1 \<and>
   (traverse properties h initial_state ns = Some st \<longrightarrow> count_list (reported_nodes st) n \<le> 1)"
proof -
  have d: "distinct (reported_nodes initial_state)"
    and s: "set (reported_nodes initial_state) \<subseteq> set (reported initial_state)"
    by (simp_all add: reported_nodes_def initial_state_def)
  have "distinct (reported_nodes (foldl (report h) initial_state ns))"
    using foldl_report_distinct [OF d s, of h ns] by simp
  then have "count_list (reported_nodes (foldl (report h) initial_state ns)) n \<le> 1"
    by (rule distinct_count_list_le_1)
  moreover have "count_list (reported_nodes st) n \<le> 1"
    if "traverse properties h initial_state ns = Some st"
    using traverse_distinct [OF that d s] distinct_count_list_le_1 [of "reported_nodes st" n]
    by blast
  ultimately show ?thesis by blast
qed

theorem reported_at_most_once_witness:
  "map_option reported_nodes
     (traverse ''always'' (shorthand_pattern_tree ''my_field'') initial_state [5, 5, 6]) =
       Some [5] \<and>
   reported_nodes (foldl (report (shorthand_pattern_tree ''my_field'')) initial_state [5, 5]) = [5] \<and>
   count_list (reported_nodes
      (foldl (report (shorthand_pattern_tree ''my_field'')) initial_state [5, 5])) 5 \<le> 1"
proof -
  have "map_option reported_nodes
     (traverse ''always'' (shorthand_pattern_tree ''my_field'') initial_state [5, 5, 6]) =
       Some [5]"
    by (simp add: handler_defs tree_defs string_defs)
  moreover have "reported_nodes
      (foldl (report (shorthand_pattern_tree ''my_field'')) initial_state [5, 5]) = [5]"
    by (simp add: report_def reported_nodes_def initial_state_def indexOf_def)
  moreover have "count_list (reported_nodes
      (foldl (report (shorthand_pattern_tree ''my_field'')) initial_state [5, 5])) 5 \<le> 1"
    using reported_at_most_once [of "shorthand_pattern_tree ''my_field''" "[5, 5]" 5]
    by blast
  ultimately show ?thesis by blast
qed

end
